theory Spec2Isabelle
  imports Main "HOL-Library.Multiset" "HOL-Library.Option_ord"
begin

section \<open>The rerank demonstration server\<close>

text \<open>
  A shallow embedding of \<^verbatim>\<open>rerank_server_demo.py\<close>: the request and response classes,
  the module-level start-up code that loads the tokenizer and the model, and the handler
  \<^verbatim>\<open>rerank_endpoint\<close> of \<^verbatim>\<open>POST /rerank\<close>.

  The tokenizer, the model and the tensor operations belong to third-party libraries.
  They enter as parameters: records of functions that either raise or return a value.
\<close>

subsection \<open>Floats\<close>

text \<open>
  A score is the Python float that \<^verbatim>\<open>score_val.item()\<close> yields: a number, or NaN. The
  numbers, the two infinities among them, are the values of a linearly ordered type
  \<open>'r\<close>; the two zeros, which compare equal, are one number. The comparisons are
  Python's: each of them is false as soon as one side is NaN.
\<close>

datatype 'r pyfloat = Num 'r | NaN

fun float_lt :: "('r::linorder) pyfloat \<Rightarrow> 'r pyfloat \<Rightarrow> bool" where
  "float_lt (Num a) (Num b) = (a < b)"
| "float_lt _ _ = False"

fun float_ge :: "('r::linorder) pyfloat \<Rightarrow> 'r pyfloat \<Rightarrow> bool" where
  "float_ge (Num a) (Num b) = (a \<ge> b)"
| "float_ge _ _ = False"

fun float_eq :: "'r pyfloat \<Rightarrow> 'r pyfloat \<Rightarrow> bool" where
  "float_eq (Num a) (Num b) = (a = b)"
| "float_eq _ _ = False"

text \<open>The number a float holds, if it holds one.\<close>

fun float_value :: "'r pyfloat \<Rightarrow> 'r option" where
  "float_value (Num a) = Some a"
| "float_value NaN = None"

subsection \<open>Request and response classes\<close>

record RerankRequest =
  query :: string
  documents :: "string list"

record DocumentInfo =
  "text" :: string

record 'r TestRankResult =
  index :: int
  document :: DocumentInfo
  score :: "'r pyfloat"

record 'r TestFinalResponse =
  results :: "'r TestRankResult list"

subsection \<open>Exceptions, devices and the process state\<close>

text \<open>
  Every exception a library call raises is an \<^verbatim>\<open>Exception\<close> carrying the message that
  \<^verbatim>\<open>str(e)\<close> prints.
\<close>

datatype py_exception = Exception string

datatype device = Cuda | Cpu

fun device_str :: "device \<Rightarrow> string" where
  "device_str Cuda = ''cuda''"
| "device_str Cpu = ''cpu''"

text \<open>
  The module-level names \<^verbatim>\<open>tokenizer\<close>, \<^verbatim>\<open>model\<close> and \<^verbatim>\<open>device\<close>, and the gradient
  mode of torch, which \<^verbatim>\<open>torch.no_grad()\<close> switches off and restores.
\<close>

record ('tok, 'mdl) server_state =
  tokenizer :: 'tok
  model :: 'mdl
  device :: device
  grad_enabled :: bool

subsection \<open>The libraries, as parameters\<close>

text \<open>
  What start-up calls: \<^verbatim>\<open>torch.cuda.is_available()\<close>,
  \<^verbatim>\<open>AutoTokenizer.from_pretrained(path)\<close>,
  \<^verbatim>\<open>AutoModelForSequenceClassification.from_pretrained(path)\<close>, \<^verbatim>\<open>model.to(device)\<close> and
  \<^verbatim>\<open>model.eval()\<close>.
\<close>

record ('tok, 'mdl) loader =
  cuda_is_available :: bool
  tokenizer_from_pretrained :: "string \<Rightarrow> py_exception + 'tok"
  model_from_pretrained :: "string \<Rightarrow> py_exception + 'mdl"
  model_to :: "'mdl \<Rightarrow> device \<Rightarrow> py_exception + 'mdl"
  model_eval :: "'mdl \<Rightarrow> py_exception + 'mdl"

text \<open>
  What the handler calls:
  \<^item> \<open>tokenize\<close> is \<^verbatim>\<open>tokenizer(pairs, padding=True, truncation=True, return_tensors="pt",
    max_length=1024)\<close>;
  \<^item> \<open>inputs_to\<close> is \<^verbatim>\<open>.to(device)\<close> on the encoded batch;
  \<^item> \<open>forward_logits\<close> is \<^verbatim>\<open>model(**inputs, return_dict=True).logits.view(-1).float()\<close>,
    the flattened logits of one forward pass, read in iteration order; its boolean argument
    is the gradient mode the call runs under.
\<close>

record ('tok, 'mdl, 'inp, 'r) inference =
  tokenize :: "'tok \<Rightarrow> (string \<times> string) list \<Rightarrow> py_exception + 'inp"
  inputs_to :: "'inp \<Rightarrow> device \<Rightarrow> py_exception + 'inp"
  forward_logits :: "'mdl \<Rightarrow> bool \<Rightarrow> 'inp \<Rightarrow> py_exception + 'r pyfloat list"

subsection \<open>Start-up\<close>

datatype ('tok, 'mdl) process =
  Exited "string list"
| Serving "string list" "('tok, 'mdl) server_state"

definition model_path :: string where
  "model_path = ''/data1/home/lwx/work/Download/rerank_model_weight''"

text \<open>The body of the \<^verbatim>\<open>try\<close> block, up to the last \<^verbatim>\<open>print\<close>.\<close>

definition load_model ::
  "('tok, 'mdl) loader \<Rightarrow> device \<Rightarrow> py_exception + ('tok \<times> 'mdl)" where
  "load_model L dev =
     (case tokenizer_from_pretrained L model_path of
        Inl e \<Rightarrow> Inl e
      | Inr tok \<Rightarrow>
          (case model_from_pretrained L model_path of
             Inl e \<Rightarrow> Inl e
           | Inr m \<Rightarrow>
               (case model_to L m dev of
                  Inl e \<Rightarrow> Inl e
                | Inr m' \<Rightarrow>
                    (case model_eval L m' of
                       Inl e \<Rightarrow> Inl e
                     | Inr m'' \<Rightarrow> Inr (tok, m'')))))"

text \<open>
  The module run as a script. The first component of the result is what was printed, one
  string a line. \<^verbatim>\<open>exit()\<close> ends the process; otherwise the application is created and
  \<^verbatim>\<open>uvicorn.run\<close> serves it with the loaded state. The interpreter starts with the
  gradient mode on.
\<close>

definition startup :: "('tok, 'mdl) loader \<Rightarrow> ('tok, 'mdl) process" where
  "startup L =
     (let dev = (if cuda_is_available L then Cuda else Cpu);
          out = [''Loading model, please wait...'', ''Device in use: '' @ device_str dev]
      in case load_model L dev of
           Inl (Exception msg) \<Rightarrow> Exited (out @ [''Model loading failed: '' @ msg])
         | Inr (tok, m) \<Rightarrow>
             Serving (out @ [''Model loaded successfully!''])
               \<lparr>tokenizer = tok, model = m, device = dev, grad_enabled = True\<rparr>)"

subsection \<open>The handler\<close>

text \<open>
  \<^verbatim>\<open>sorted(results, key=lambda x: x.score, reverse=True)\<close> is the list sort of the
  interpreter (CPython 3.11), which compares keys with \<^verbatim>\<open><\<close> and with nothing else.
  On a list shorter than 64 it finds the run the list starts with, a run that never
  descends or one that strictly descends and is then reversed, and puts the other entries
  into it one by one, each at the place a binary search gives. The functions below follow
  \<^verbatim>\<open>count_run\<close>, \<^verbatim>\<open>binarysort\<close> and \<^verbatim>\<open>list_sort_impl\<close> of \<^verbatim>\<open>listobject.c\<close>.

  From 64 entries on the interpreter sorts stretches of the list in this way and merges
  them. When no key is NaN the outcome is the same, the one stable order
  (\<open>list_sort_is_stable_sort\<close> below); when a key is NaN and the list has 64 entries or
  more, the order of the interpreter can differ from the one computed here, though both
  are rearrangements of the list.
\<close>

fun run_ascending :: "('a \<Rightarrow> 'a \<Rightarrow> bool) \<Rightarrow> 'a \<Rightarrow> 'a list \<Rightarrow> nat" where
  "run_ascending lt prev [] = 0"
| "run_ascending lt prev (x # xs) = (if lt x prev then 0 else Suc (run_ascending lt x xs))"

fun run_descending :: "('a \<Rightarrow> 'a \<Rightarrow> bool) \<Rightarrow> 'a \<Rightarrow> 'a list \<Rightarrow> nat" where
  "run_descending lt prev [] = 0"
| "run_descending lt prev (x # xs) = (if lt x prev then Suc (run_descending lt x xs) else 0)"

text \<open>The length of the run at the head of the list, and whether it descends.\<close>

fun count_run :: "('a \<Rightarrow> 'a \<Rightarrow> bool) \<Rightarrow> 'a list \<Rightarrow> nat \<times> bool" where
  "count_run lt [] = (0, False)"
| "count_run lt [x] = (1, False)"
| "count_run lt (x # y # rest) =
     (if lt y x then (2 + run_descending lt y rest, True)
      else (2 + run_ascending lt y rest, False))"

text \<open>
  The binary search of \<^verbatim>\<open>binarysort\<close>, between positions \<open>l\<close> and \<open>r\<close> of the sorted
  part: \<^verbatim>\<open>p = l + ((r - l) >> 1)\<close>, then \<^verbatim>\<open>r = p\<close> if the pivot is less than the entry at
  \<open>p\<close>, else \<^verbatim>\<open>l = p + 1\<close>.
\<close>

function bisect :: "('a \<Rightarrow> 'a \<Rightarrow> bool) \<Rightarrow> 'a \<Rightarrow> 'a list \<Rightarrow> nat \<Rightarrow> nat \<Rightarrow> nat" where
  "bisect lt pivot xs l r =
     (if l < r
      then (let p = l + (r - l) div 2
            in if lt pivot (xs ! p) then bisect lt pivot xs l p
               else bisect lt pivot xs (p + 1) r)
      else l)"
  by pat_completeness auto
termination
  by (relation "measure (\<lambda>(lt, pivot, xs, l, r). r - l)") auto

declare bisect.simps [simp del]

text \<open>
  The pivot is put at position \<open>l\<close>: the entries from \<open>l\<close> on move up by one.
\<close>

definition insert_at :: "nat \<Rightarrow> 'a \<Rightarrow> 'a list \<Rightarrow> 'a list" where
  "insert_at l pivot xs = take l xs @ pivot # drop l xs"

text \<open>Each entry of the second list is put into the sorted first list.\<close>

fun binarysort :: "('a \<Rightarrow> 'a \<Rightarrow> bool) \<Rightarrow> 'a list \<Rightarrow> 'a list \<Rightarrow> 'a list" where
  "binarysort lt done [] = done"
| "binarysort lt done (pivot # rest) =
     binarysort lt (insert_at (bisect lt pivot done 0 (length done)) pivot done) rest"

definition list_sort :: "('a \<Rightarrow> 'a \<Rightarrow> bool) \<Rightarrow> 'a list \<Rightarrow> 'a list" where
  "list_sort lt xs =
     (if length xs < 2 then xs
      else (case count_run lt xs of
              (n, descending) \<Rightarrow>
                binarysort lt (if descending then rev (take n xs) else take n xs) (drop n xs)))"

text \<open>
  With \<^verbatim>\<open>reverse=True\<close> the list is reversed, sorted in ascending order, and reversed
  again.
\<close>

definition sorted_reverse :: "('a \<Rightarrow> ('r::linorder) pyfloat) \<Rightarrow> 'a list \<Rightarrow> 'a list" where
  "sorted_reverse key xs = rev (list_sort (\<lambda>a b. float_lt (key a) (key b)) (rev xs))"

text \<open>\<^verbatim>\<open>pairs = [[request.query, doc] for doc in request.documents]\<close>\<close>

definition make_pairs :: "RerankRequest \<Rightarrow> (string \<times> string) list" where
  "make_pairs request = map (\<lambda>doc. (query request, doc)) (documents request)"

text \<open>The three calls under \<^verbatim>\<open>torch.no_grad()\<close>; the first that raises ends the block.\<close>

definition compute_scores ::
  "('tok, 'mdl, 'inp, 'r) inference \<Rightarrow> ('tok, 'mdl) server_state \<Rightarrow>
     (string \<times> string) list \<Rightarrow> py_exception + 'r pyfloat list" where
  "compute_scores I st pairs =
     (case tokenize I (tokenizer st) pairs of
        Inl e \<Rightarrow> Inl e
      | Inr enc \<Rightarrow>
          (case inputs_to I enc (device st) of
             Inl e \<Rightarrow> Inl e
           | Inr inputs \<Rightarrow> forward_logits I (model st) (grad_enabled st) inputs))"

text \<open>
  The loop over \<^verbatim>\<open>enumerate(zip(request.documents, scores))\<close>: \<^verbatim>\<open>zip\<close> stops at the
  shorter of its two arguments.
\<close>

definition build_results ::
  "string list \<Rightarrow> 'r pyfloat list \<Rightarrow> 'r TestRankResult list" where
  "build_results docs scores =
     map (\<lambda>(i, (txt, score_val)).
            \<lparr>index = int i, document = \<lparr>text = txt\<rparr>, score = score_val\<rparr>)
         (enumerate 0 (zip docs scores))"

text \<open>
  The block \<^verbatim>\<open>with torch.no_grad(): ...\<close>, passing the process state through: the
  gradient mode is saved and switched off, the three calls run, and the saved mode is put
  back when the block is left, by an exception too.
\<close>

definition no_grad_scores ::
  "('tok, 'mdl, 'inp, 'r) inference \<Rightarrow> ('tok, 'mdl) server_state \<Rightarrow>
     (string \<times> string) list \<Rightarrow>
     (py_exception + 'r pyfloat list) \<times> ('tok, 'mdl) server_state" where
  "no_grad_scores I st pairs =
     (let prev = grad_enabled st;
          st1 = st\<lparr>grad_enabled := False\<rparr>;
          outcome = compute_scores I st1 pairs
      in (outcome, st1\<lparr>grad_enabled := prev\<rparr>))"

text \<open>
  The handler. An exception of the block leaves the handler; otherwise the results are
  built, sorted and returned.
\<close>

definition rerank_endpoint ::
  "('tok, 'mdl, 'inp, 'r::linorder) inference \<Rightarrow> ('tok, 'mdl) server_state \<Rightarrow> RerankRequest \<Rightarrow>
     (py_exception + 'r TestFinalResponse) \<times> ('tok, 'mdl) server_state" where
  "rerank_endpoint I st request =
     (let pairs = make_pairs request
      in case no_grad_scores I st pairs of
           (Inl e, st') \<Rightarrow> (Inl e, st')
         | (Inr scores, st') \<Rightarrow>
             (let results = build_results (documents request) scores;
                  sorted_results = sorted_reverse score results
              in (Inr \<lparr>results = sorted_results\<rparr>, st')))"

text \<open>
  Descending order: every entry's score is greater than or equal to the score of the
  entry after it, by Python's \<^verbatim>\<open>>=\<close>.
\<close>

fun descending :: "('r::linorder) TestRankResult list \<Rightarrow> bool" where
  "descending (a # b # rest) = (float_ge (score a) (score b) \<and> descending (b # rest))"
| "descending _ = True"

subsection \<open>A small instance\<close>

text \<open>
  Stand-ins for the libraries, to run the definitions on. The tokenizer raises on an empty
  batch, as the tokenizers of the transformers library do (an \<^verbatim>\<open>IndexError\<close>, whose text
  is the message below); otherwise the encoded batch is the list of pairs itself. The
  logit of a pair is the length of its document, and NaN for the empty document.
\<close>

definition example_inference :: "(unit, unit, (string \<times> string) list, int) inference" where
  "example_inference =
     \<lparr>tokenize = (\<lambda>tok pairs.
        if pairs = [] then Inl (Exception ''list index out of range'') else Inr pairs),
      inputs_to = (\<lambda>enc dev. Inr enc),
      forward_logits = (\<lambda>m grad inputs.
        Inr (map (\<lambda>(q, doc). if doc = [] then NaN else Num (int (length doc))) inputs))\<rparr>"

definition example_state :: "(unit, unit) server_state" where
  "example_state = \<lparr>tokenizer = (), model = (), device = Cpu, grad_enabled = True\<rparr>"

definition example_request :: RerankRequest where
  "example_request = \<lparr>query = ''q'', documents = [''a'', ''ccc'', ''bb'', ''dd'']\<rparr>"

definition example_response :: "int TestFinalResponse" where
  "example_response =
     \<lparr>results =
        [\<lparr>index = 1, document = \<lparr>text = ''ccc''\<rparr>, score = Num 3\<rparr>,
         \<lparr>index = 2, document = \<lparr>text = ''bb''\<rparr>, score = Num 2\<rparr>,
         \<lparr>index = 3, document = \<lparr>text = ''dd''\<rparr>, score = Num 2\<rparr>,
         \<lparr>index = 0, document = \<lparr>text = ''a''\<rparr>, score = Num 1\<rparr>]\<rparr>"

text \<open>A request with no documents.\<close>

definition empty_request :: RerankRequest where
  "empty_request = \<lparr>query = ''q'', documents = []\<rparr>"

text \<open>
  Two requests with an empty document, the second of three and the fifth of seven, which
  the stand-in scores NaN: the scores are 3, NaN, 5 and 1, 1, 1, 1, NaN, 1, 2.
\<close>

definition nan_request :: RerankRequest where
  "nan_request = \<lparr>query = ''q'', documents = [''abc'', [], ''abcde'']\<rparr>"

definition nan_tie_request :: RerankRequest where
  "nan_tie_request =
     \<lparr>query = ''q'', documents = [''a'', ''b'', ''c'', ''d'', [], ''e'', ''fg'']\<rparr>"

text \<open>What the interpreter returns for them, as the definitions compute it.\<close>

definition nan_response :: "int TestFinalResponse" where
  "nan_response =
     \<lparr>results =
        [\<lparr>index = 0, document = \<lparr>text = ''abc''\<rparr>, score = Num 3\<rparr>,
         \<lparr>index = 1, document = \<lparr>text = []\<rparr>, score = NaN\<rparr>,
         \<lparr>index = 2, document = \<lparr>text = ''abcde''\<rparr>, score = Num 5\<rparr>]\<rparr>"

definition nan_tie_response :: "int TestFinalResponse" where
  "nan_tie_response =
     \<lparr>results =
        [\<lparr>index = 1, document = \<lparr>text = ''b''\<rparr>, score = Num 1\<rparr>,
         \<lparr>index = 4, document = \<lparr>text = []\<rparr>, score = NaN\<rparr>,
         \<lparr>index = 6, document = \<lparr>text = ''fg''\<rparr>, score = Num 2\<rparr>,
         \<lparr>index = 0, document = \<lparr>text = ''a''\<rparr>, score = Num 1\<rparr>,
         \<lparr>index = 2, document = \<lparr>text = ''c''\<rparr>, score = Num 1\<rparr>,
         \<lparr>index = 3, document = \<lparr>text = ''d''\<rparr>, score = Num 1\<rparr>,
         \<lparr>index = 5, document = \<lparr>text = ''e''\<rparr>, score = Num 1\<rparr>]\<rparr>"

text \<open>A loader whose tokenizer cannot be read, and one whose model cannot.\<close>

definition failing_tokenizer_loader :: "(unit, unit) loader" where
  "failing_tokenizer_loader =
     \<lparr>cuda_is_available = False,
      tokenizer_from_pretrained = (\<lambda>path. Inl (Exception ''no tokenizer'')),
      model_from_pretrained = (\<lambda>path. Inr ()),
      model_to = (\<lambda>m dev. Inr m),
      model_eval = (\<lambda>m. Inr m)\<rparr>"

definition failing_model_loader :: "(unit, unit) loader" where
  "failing_model_loader =
     \<lparr>cuda_is_available = True,
      tokenizer_from_pretrained = (\<lambda>path. Inr ()),
      model_from_pretrained = (\<lambda>path. Inl (Exception ''no weights'')),
      model_to = (\<lambda>m dev. Inr m),
      model_eval = (\<lambda>m. Inr m)\<rparr>"

section \<open>Properties\<close>

subsection \<open>The handler's two ways out\<close>

lemma no_grad_scores_outcome:
  "fst (no_grad_scores I st pairs) = compute_scores I (st\<lparr>grad_enabled := False\<rparr>) pairs"
  by (simp add: no_grad_scores_def Let_def)

text \<open>The handler returns a response exactly when the three library calls succeed.\<close>

lemma rerank_endpoint_returns:
  "fst (no_grad_scores I st (make_pairs request)) = Inr scores \<Longrightarrow>
   fst (rerank_endpoint I st request) =
     Inr \<lparr>results = sorted_reverse score (build_results (documents request) scores)\<rparr>"
  by (cases "no_grad_scores I st (make_pairs request)") (simp add: rerank_endpoint_def Let_def)

lemma rerank_endpoint_raises:
  "fst (no_grad_scores I st (make_pairs request)) = Inl e \<Longrightarrow>
   fst (rerank_endpoint I st request) = Inl e"
  by (cases "no_grad_scores I st (make_pairs request)") (simp add: rerank_endpoint_def Let_def)

lemma rerank_endpoint_response:
  assumes "fst (rerank_endpoint I st request) = Inr response"
  obtains scores where "fst (no_grad_scores I st (make_pairs request)) = Inr scores"
    and "results response = sorted_reverse score (build_results (documents request) scores)"
proof (cases "fst (no_grad_scores I st (make_pairs request))")
  case (Inl e)
  from rerank_endpoint_raises [OF this] assms show ?thesis by simp
next
  case (Inr scores)
  from rerank_endpoint_returns [OF this] assms that [OF Inr] show ?thesis by auto
qed

lemma forward_pass_scores:
  assumes "tokenize I (tokenizer st) pairs = Inr enc"
    and "inputs_to I enc (device st) = Inr inputs"
    and "forward_logits I (model st) False inputs = Inr scores"
  shows "fst (no_grad_scores I st pairs) = Inr scores"
  using assms by (simp add: no_grad_scores_outcome compute_scores_def)

subsection \<open>The sort rearranges\<close>

text \<open>Whatever the comparison answers, the sorted list has the entries of the list.\<close>

lemma mset_take_drop: "mset (take n xs) + mset (drop n xs) = mset xs"
  by (metis append_take_drop_id mset_append)

lemma mset_binarysort: "mset (binarysort lt sorted_part rest) = mset sorted_part + mset rest"
  by (induction rest arbitrary: sorted_part) (simp_all add: insert_at_def mset_take_drop)

lemma mset_list_sort: "mset (list_sort lt xs) = mset xs"
proof (cases "length xs < 2")
  case True
  then show ?thesis by (simp add: list_sort_def)
next
  case False
  obtain n d where run: "count_run lt xs = (n, d)"
    by (cases "count_run lt xs")
  with False show ?thesis
    by (simp add: list_sort_def mset_binarysort mset_take_drop)
qed

lemma mset_sorted_reverse: "mset (sorted_reverse key xs) = mset xs"
  by (simp add: sorted_reverse_def mset_list_sort)

lemma set_sorted_reverse: "set (sorted_reverse key xs) = set xs"
  by (rule mset_eq_setD) (rule mset_sorted_reverse)

lemma length_sorted_reverse: "length (sorted_reverse key xs) = length xs"
  by (rule mset_eq_length) (rule mset_sorted_reverse)

subsection \<open>The sort on a linear order\<close>

text \<open>
  Where the comparison is the \<open><\<close> of a linear order on keys, the list sort is the stable
  sort by that key.
\<close>

lemma run_ascending_sorted:
  fixes k :: "'a \<Rightarrow> 'k::linorder"
  assumes "\<And>a b. a \<in> S \<Longrightarrow> b \<in> S \<Longrightarrow> lt a b = (k a < k b)"
    and "prev \<in> S" and "set xs \<subseteq> S"
  shows "sorted (map k (prev # take (run_ascending lt prev xs) xs))"
  using assms(2,3)
proof (induction xs arbitrary: prev)
  case Nil
  then show ?case by simp
next
  case (Cons x xs)
  then have "x \<in> S" "set xs \<subseteq> S" by auto
  with Cons.IH [of x] have tail: "sorted (map k (x # take (run_ascending lt x xs) xs))"
    by simp
  show ?case
  proof (cases "lt x prev")
    case True
    then show ?thesis by simp
  next
    case False
    with assms(1) [OF \<open>x \<in> S\<close> Cons.prems(1)] have "k prev \<le> k x" by simp
    with tail False show ?thesis by auto
  qed
qed

lemma run_descending_sorted:
  fixes k :: "'a \<Rightarrow> 'k::linorder"
  assumes "\<And>a b. a \<in> S \<Longrightarrow> b \<in> S \<Longrightarrow> lt a b = (k a < k b)"
    and "prev \<in> S" and "set xs \<subseteq> S"
  shows "sorted_wrt (\<lambda>a b. k b < k a) (prev # take (run_descending lt prev xs) xs)"
  using assms(2,3)
proof (induction xs arbitrary: prev)
  case Nil
  then show ?case by simp
next
  case (Cons x xs)
  then have "x \<in> S" "set xs \<subseteq> S" by auto
  with Cons.IH [of x]
  have tail: "sorted_wrt (\<lambda>a b. k b < k a) (x # take (run_descending lt x xs) xs)"
    by simp
  show ?case
  proof (cases "lt x prev")
    case False
    then show ?thesis by simp
  next
    case True
    with assms(1) [OF \<open>x \<in> S\<close> Cons.prems(1)] have "k x < k prev" by simp
    moreover have "transp (\<lambda>a b. k b < k a)"
      by (auto simp: transp_def)
    ultimately show ?thesis
      using tail True by (simp add: sorted_wrt2 del: sorted_wrt.simps)
  qed
qed

lemma filter_key_strictly_descending:
  fixes k :: "'a \<Rightarrow> 'k::linorder"
  assumes "sorted_wrt (\<lambda>a b. k b < k a) xs"
  shows "rev (filter (\<lambda>y. c = k y) xs) = filter (\<lambda>y. c = k y) xs"
  using assms
proof (induction xs)
  case Nil
  then show ?case by simp
next
  case (Cons x xs)
  show ?case
  proof (cases "c = k x")
    case True
    from Cons.prems have "\<forall>y\<in>set xs. k y < k x" by simp
    with True have "filter (\<lambda>y. c = k y) xs = []"
      by (fastforce simp: filter_empty_conv)
    with True show ?thesis by simp
  next
    case False
    with Cons show ?thesis by simp
  qed
qed

lemma sort_key_strictly_descending:
  fixes k :: "'a \<Rightarrow> 'k::linorder"
  assumes "sorted_wrt (\<lambda>a b. k b < k a) xs"
  shows "sort_key k xs = rev xs"
proof (rule properties_for_sort_key)
  show "mset (rev xs) = mset xs" by simp
  from assms have "sorted_wrt (\<lambda>a b. k a < k b) (rev xs)"
    by (simp add: sorted_wrt_rev)
  then have "sorted_wrt (\<lambda>a b. k a \<le> k b) (rev xs)"
    by (rule sorted_wrt_mono_rel [rotated]) simp
  then show "sorted (map k (rev xs))"
    by (simp add: sorted_wrt_map)
  show "filter (\<lambda>x. k e = k x) (rev xs) = filter (\<lambda>x. k e = k x) xs" if "e \<in> set (rev xs)" for e
    using filter_key_strictly_descending [OF assms, where c = "k e"] by (simp add: rev_filter)
qed

lemma list_012_cases:
  obtains "xs = []" | x where "xs = [x]" | x y rest where "xs = x # y # rest"
proof (cases xs)
  case Nil
  then show ?thesis by (rule that(1))
next
  case (Cons x tail)
  then show ?thesis
    by (cases tail) (auto intro: that)
qed

lemma first_run_sorted:
  fixes k :: "'a \<Rightarrow> 'k::linorder"
  assumes agree: "\<And>a b. a \<in> S \<Longrightarrow> b \<in> S \<Longrightarrow> lt a b = (k a < k b)"
    and "set xs \<subseteq> S" and "count_run lt xs = (n, d)"
  shows "(if d then rev (take n xs) else take n xs) = sort_key k (take n xs)"
proof -
  consider "xs = []" | x where "xs = [x]" | x y rest where "xs = x # y # rest"
    by (rule list_012_cases)
  then show ?thesis
  proof cases
    case 1
    with assms show ?thesis by simp
  next
    case 2
    with assms show ?thesis by auto
  next
    case 3
    with assms(2) have mem: "x \<in> S" "y \<in> S" "set rest \<subseteq> S" by auto
    show ?thesis
    proof (cases "lt y x")
      case True
      with 3 assms(3) have n: "n = 2 + run_descending lt y rest" and d: "d" by auto
      from True agree [OF mem(2) mem(1)] have "k y < k x" by simp
      moreover from run_descending_sorted [where lt = lt and k = k and S = S, OF agree mem(2) mem(3)]
      have tail: "sorted_wrt (\<lambda>a b. k b < k a) (y # take (run_descending lt y rest) rest)"
        by simp
      moreover have "transp (\<lambda>a b. k b < k a)"
        by (auto simp: transp_def)
      ultimately have "sorted_wrt (\<lambda>a b. k b < k a) (x # y # take (run_descending lt y rest) rest)"
        by (simp add: sorted_wrt2 del: sorted_wrt.simps)
      with 3 n have "sorted_wrt (\<lambda>a b. k b < k a) (take n xs)" by simp
      from sort_key_strictly_descending [OF this] d show ?thesis by simp
    next
      case False
      with 3 assms(3) have n: "n = 2 + run_ascending lt y rest" and d: "\<not> d" by auto
      from False agree [OF mem(2) mem(1)] have "k x \<le> k y" by simp
      moreover from run_ascending_sorted [where lt = lt and k = k and S = S, OF agree mem(2) mem(3)]
      have "sorted (map k (y # take (run_ascending lt y rest) rest))"
        by simp
      ultimately have "sorted (map k (x # y # take (run_ascending lt y rest) rest))"
        by auto
      with 3 n have "sorted (map k (take n xs))" by simp
      from sort_key_id_if_sorted [OF this] d show ?thesis by simp
    qed
  qed
qed

text \<open>
  The binary search ends at the place that parts the sorted entries not above the pivot
  from the entries above it.
\<close>

lemma bisect_boundary:
  fixes k :: "'a \<Rightarrow> 'k::linorder"
  assumes agree: "\<And>a b. a \<in> S \<Longrightarrow> b \<in> S \<Longrightarrow> lt a b = (k a < k b)"
    and "sorted (map k s)" and "set s \<subseteq> S" and "x \<in> S"
    and "l \<le> r" and "r \<le> length s"
    and "\<forall>i<l. k (s ! i) \<le> k x"
    and "\<forall>i. r \<le> i \<and> i < length s \<longrightarrow> k x < k (s ! i)"
  shows "bisect lt x s l r \<le> length s \<and>
         (\<forall>i<bisect lt x s l r. k (s ! i) \<le> k x) \<and>
         (\<forall>i. bisect lt x s l r \<le> i \<and> i < length s \<longrightarrow> k x < k (s ! i))"
  using assms(5-8)
proof (induction "r - l" arbitrary: l r rule: less_induct)
  case less
  show ?case
  proof (cases "l < r")
    case False
    then have "bisect lt x s l r = l"
      by (simp add: bisect.simps [of lt x s l r])
    moreover from False less.prems have "l = r" by simp
    ultimately show ?thesis
      using less.prems by simp
  next
    case True
    define p where "p = l + (r - l) div 2"
    from True less.prems have p: "l \<le> p" "p < r" "p < length s"
      by (auto simp: p_def)
    with assms(3) have "s ! p \<in> S"
      by (meson nth_mem subsetD)
    note cmp = agree [OF \<open>x \<in> S\<close> this]
    from assms(2) have mono: "\<And>i j. i \<le> j \<Longrightarrow> j < length s \<Longrightarrow> k (s ! i) \<le> k (s ! j)"
      by (simp add: sorted_iff_nth_mono)
    show ?thesis
    proof (cases "lt x (s ! p)")
      case lt: True
      have above: "\<forall>i. p \<le> i \<and> i < length s \<longrightarrow> k x < k (s ! i)"
      proof (intro allI impI)
        fix i assume "p \<le> i \<and> i < length s"
        with mono [of p i] have "k (s ! p) \<le> k (s ! i)" by simp
        with lt cmp show "k x < k (s ! i)" by simp
      qed
      from p have "p - l < r - l" "l \<le> p" "p \<le> length s" by simp_all
      from less.hyps [OF this] less.prems(3) above
      have "bisect lt x s l p \<le> length s \<and>
         (\<forall>i<bisect lt x s l p. k (s ! i) \<le> k x) \<and>
         (\<forall>i. bisect lt x s l p \<le> i \<and> i < length s \<longrightarrow> k x < k (s ! i))"
        by simp
      with True lt show ?thesis
        by (simp add: bisect.simps [of lt x s l r] p_def [symmetric])
    next
      case ge: False
      have below: "\<forall>i<p + 1. k (s ! i) \<le> k x"
      proof (intro allI impI)
        fix i assume "i < p + 1"
        with mono [of i p] p have "k (s ! i) \<le> k (s ! p)" by simp
        with ge cmp show "k (s ! i) \<le> k x" by simp
      qed
      from p less.prems have "r - (p + 1) < r - l" "p + 1 \<le> r" "r \<le> length s" by simp_all
      from less.hyps [OF this] less.prems(4) below
      have "bisect lt x s (p + 1) r \<le> length s \<and>
         (\<forall>i<bisect lt x s (p + 1) r. k (s ! i) \<le> k x) \<and>
         (\<forall>i. bisect lt x s (p + 1) r \<le> i \<and> i < length s \<longrightarrow> k x < k (s ! i))"
        by simp
      with True ge show ?thesis
        by (simp add: bisect.simps [of lt x s l r] p_def [symmetric])
    qed
  qed
qed

lemma insert_at_boundary:
  fixes k :: "'a \<Rightarrow> 'k::linorder"
  assumes "b \<le> length (sort_key k pre)"
    and below: "\<forall>i<b. k (sort_key k pre ! i) \<le> k x"
    and above: "\<forall>i. b \<le> i \<and> i < length (sort_key k pre) \<longrightarrow> k x < k (sort_key k pre ! i)"
  shows "take b (sort_key k pre) @ x # drop b (sort_key k pre) = sort_key k (pre @ [x])"
proof -
  let ?s = "sort_key k pre"
  let ?ys = "take b ?s @ x # drop b ?s"
  have lo: "k y \<le> k x" if "y \<in> set (take b ?s)" for y
    using that below assms(1) by (auto simp: in_set_conv_nth)
  have hi: "k x < k y" if "y \<in> set (drop b ?s)" for y
  proof -
    from that obtain i where "i < length ?s - b" "y = ?s ! (b + i)"
      by (auto simp: in_set_conv_nth)
    with above show ?thesis by simp
  qed
  have sorted_s: "sorted (map k ?s)" by (rule sorted_sort_key)
  show ?thesis
  proof (rule properties_for_sort_key [symmetric])
    have "mset (take b ?s) + mset (drop b ?s) = mset ?s"
      by (rule mset_take_drop)
    then show "mset ?ys = mset (pre @ [x])"
      by simp
    have "sorted (map k (take b ?s))" "sorted (map k (drop b ?s))"
      using sorted_s by (simp_all add: sorted_wrt_take sorted_wrt_drop sorted_map)
    with lo hi show "sorted (map k ?ys)"
      by (fastforce simp: sorted_append)
    show "filter (\<lambda>y. k e = k y) ?ys = filter (\<lambda>y. k e = k y) (pre @ [x])"
      if "e \<in> set ?ys" for e
    proof -
      have "filter (\<lambda>y. k e = k y) ?s = filter (\<lambda>y. k e = k y) pre"
        using sort_key_stable [of k "k e" pre] by (simp add: eq_commute [of "k e"])
      then have whole: "filter (\<lambda>y. k e = k y) (take b ?s) @ filter (\<lambda>y. k e = k y) (drop b ?s) =
          filter (\<lambda>y. k e = k y) pre"
        by (metis append_take_drop_id filter_append)
      show ?thesis
      proof (cases "k e = k x")
        case True
        have "k e \<noteq> k y" if "y \<in> set (drop b ?s)" for y
          using hi [OF that] True by simp
        then have "filter (\<lambda>y. k e = k y) (drop b ?s) = []"
          by (simp add: filter_empty_conv)
        with whole True show ?thesis by simp
      next
        case False
        with whole show ?thesis by simp
      qed
    qed
  qed
qed

lemma binarysort_sort_key:
  fixes k :: "'a \<Rightarrow> 'k::linorder"
  assumes agree: "\<And>a b. a \<in> S \<Longrightarrow> b \<in> S \<Longrightarrow> lt a b = (k a < k b)"
    and "set pre \<subseteq> S" and "set rest \<subseteq> S"
  shows "binarysort lt (sort_key k pre) rest = sort_key k (pre @ rest)"
  using assms(2,3)
proof (induction rest arbitrary: pre)
  case Nil
  then show ?case by simp
next
  case (Cons x rest)
  let ?s = "sort_key k pre"
  let ?b = "bisect lt x ?s 0 (length ?s)"
  from Cons.prems have mem: "x \<in> S" "set rest \<subseteq> S" "set ?s \<subseteq> S" by auto
  have "?b \<le> length ?s \<and> (\<forall>i<?b. k (?s ! i) \<le> k x) \<and>
      (\<forall>i. ?b \<le> i \<and> i < length ?s \<longrightarrow> k x < k (?s ! i))"
    by (rule bisect_boundary [where S = S, OF agree sorted_sort_key mem(3) mem(1)]) auto
  then have "take ?b ?s @ x # drop ?b ?s = sort_key k (pre @ [x])"
    by (intro insert_at_boundary) simp_all
  moreover from Cons.prems have "set (pre @ [x]) \<subseteq> S" by simp
  ultimately show ?case
    using Cons.IH [of "pre @ [x]"] mem(2) by (simp add: insert_at_def)
qed

lemma list_sort_is_stable_sort:
  fixes k :: "'a \<Rightarrow> 'k::linorder"
  assumes agree: "\<And>a b. a \<in> set xs \<Longrightarrow> b \<in> set xs \<Longrightarrow> lt a b = (k a < k b)"
  shows "list_sort lt xs = sort_key k xs"
proof (cases "length xs < 2")
  case True
  then have "sorted (map k xs)"
    by (cases xs rule: list_012_cases) auto
  with True show ?thesis
    by (simp add: list_sort_def sort_key_id_if_sorted)
next
  case False
  obtain n d where run: "count_run lt xs = (n, d)"
    by (cases "count_run lt xs")
  have sub: "set (take n xs) \<subseteq> set xs" "set (drop n xs) \<subseteq> set xs"
    by (auto dest: in_set_takeD in_set_dropD)
  from first_run_sorted [where lt = lt and k = k and S = "set xs", OF agree subset_refl run]
  have "(if d then rev (take n xs) else take n xs) = sort_key k (take n xs)"
    by simp
  with False run have "list_sort lt xs = binarysort lt (sort_key k (take n xs)) (drop n xs)"
    by (simp add: list_sort_def)
  also from binarysort_sort_key [where lt = lt and k = k and S = "set xs", OF agree sub] have "\<dots> = sort_key k (take n xs @ drop n xs)"
    by simp
  finally show ?thesis by simp
qed

subsection \<open>The sort on scores without NaN\<close>

lemma float_lt_value:
  "x \<noteq> NaN \<Longrightarrow> y \<noteq> NaN \<Longrightarrow> float_lt x y = (float_value x < float_value y)"
  by (cases x; cases y) simp_all

lemma float_ge_value:
  "x \<noteq> NaN \<Longrightarrow> y \<noteq> NaN \<Longrightarrow> float_ge x y = (float_value y \<le> float_value x)"
  by (cases x; cases y) simp_all

lemma float_value_eq: "float_value x = float_value y \<longleftrightarrow> x = y"
  by (cases x; cases y) simp_all

lemma float_eq_iff: "float_eq x y \<longleftrightarrow> x = y \<and> x \<noteq> NaN"
  by (cases x; cases y) auto

text \<open>
  When no key is NaN, \<^verbatim>\<open>sorted(..., reverse=True)\<close> is the stable sort of the reversed
  list, reversed.
\<close>

lemma sorted_reverse_stable_sort:
  assumes "\<forall>x\<in>set xs. key x \<noteq> NaN"
  shows "sorted_reverse key xs = rev (sort_key (\<lambda>x. float_value (key x)) (rev xs))"
proof -
  have "list_sort (\<lambda>a b. float_lt (key a) (key b)) (rev xs) =
      sort_key (\<lambda>x. float_value (key x)) (rev xs)"
    by (rule list_sort_is_stable_sort) (use assms in \<open>simp add: float_lt_value\<close>)
  then show ?thesis
    by (simp add: sorted_reverse_def)
qed

lemma sorted_reverse_descending:
  assumes "\<forall>x\<in>set xs. key x \<noteq> NaN"
  shows "sorted_wrt (\<lambda>a b. float_ge (key a) (key b)) (sorted_reverse key xs)"
proof -
  let ?k = "\<lambda>x. float_value (key x)"
  have "sorted (map ?k (sort_key ?k (rev xs)))"
    by (rule sorted_sort_key)
  then have "sorted_wrt (\<lambda>a b. ?k b \<le> ?k a) (rev (sort_key ?k (rev xs)))"
    by (simp add: sorted_wrt_map sorted_wrt_rev)
  then have "sorted_wrt (\<lambda>a b. ?k b \<le> ?k a) (sorted_reverse key xs)"
    by (simp add: sorted_reverse_stable_sort [OF assms])
  then show ?thesis
  proof (rule sorted_wrt_mono_rel [rotated])
    fix a b
    assume "a \<in> set (sorted_reverse key xs)" "b \<in> set (sorted_reverse key xs)"
      and "?k b \<le> ?k a"
    with assms show "float_ge (key a) (key b)"
      by (simp add: set_sorted_reverse float_ge_value)
  qed
qed

lemma descending_if_sorted_wrt:
  "sorted_wrt (\<lambda>a b. float_ge (score a) (score b)) rs \<Longrightarrow> descending rs"
  by (induction rs rule: descending.induct) simp_all

text \<open>Entries with one key come out in the order they went in.\<close>

lemma filter_sorted_reverse:
  assumes "\<forall>x\<in>set xs. key x \<noteq> NaN"
  shows "filter (\<lambda>x. key x = v) (sorted_reverse key xs) = filter (\<lambda>x. key x = v) xs"
proof -
  let ?k = "\<lambda>x. float_value (key x)"
  have "filter (\<lambda>x. ?k x = float_value v) (rev (sort_key ?k (rev xs))) =
      filter (\<lambda>x. ?k x = float_value v) xs"
    by (simp add: rev_filter [symmetric] sort_key_stable)
  then show ?thesis
    by (simp add: sorted_reverse_stable_sort [OF assms] float_value_eq)
qed

lemma sorted_wrt_filter_nth:
  "sorted_wrt P (filter Q xs) \<Longrightarrow> i < j \<Longrightarrow> j < length xs \<Longrightarrow> Q (xs ! i) \<Longrightarrow> Q (xs ! j) \<Longrightarrow>
   P (xs ! i) (xs ! j)"
proof (induction xs arbitrary: i j)
  case Nil
  then show ?case by simp
next
  case (Cons x xs)
  from Cons.prems obtain j' where j: "j = Suc j'" "j' < length xs"
    by (cases j) auto
  show ?case
  proof (cases i)
    case 0
    with Cons.prems j have "Q x" and "xs ! j' \<in> set (filter Q xs)"
      by auto
    with Cons.prems(1) have "P x (xs ! j')"
      by auto
    with 0 j show ?thesis by simp
  next
    case (Suc i')
    from Cons.prems(1) have tail: "sorted_wrt P (filter Q xs)"
      by (auto split: if_splits)
    from Suc j Cons.prems have "i' < j'" "Q (xs ! i')" "Q (xs ! j')"
      by auto
    with Cons.IH [OF tail] j Suc show ?thesis by simp
  qed
qed

subsection \<open>The loop that builds the results\<close>

lemma length_build_results:
  "length (build_results docs scores) = min (length docs) (length scores)"
  by (simp add: build_results_def)

lemma nth_build_results:
  "i < length docs \<Longrightarrow> i < length scores \<Longrightarrow>
   build_results docs scores ! i =
     \<lparr>index = int i, document = \<lparr>text = docs ! i\<rparr>, score = scores ! i\<rparr>"
  by (simp add: build_results_def nth_enumerate_eq)

lemma in_build_results:
  assumes "r \<in> set (build_results docs scores)"
  obtains i where "i < length docs" and "i < length scores"
    and "r = \<lparr>index = int i, document = \<lparr>text = docs ! i\<rparr>, score = scores ! i\<rparr>"
  using assms by (auto simp: in_set_conv_nth length_build_results nth_build_results)

lemma build_results_index_increasing:
  "sorted_wrt (\<lambda>a b. index a < index b) (build_results docs scores)"
  by (simp add: sorted_wrt_iff_nth_less length_build_results nth_build_results)

lemma build_results_index_distinct: "distinct (map index (build_results docs scores))"
proof -
  have "sorted_wrt (<) (map index (build_results docs scores))"
    using build_results_index_increasing [of docs scores] by (simp add: sorted_wrt_map)
  then show ?thesis
    by (simp add: strict_sorted_iff)
qed

lemma sorted_reverse_index_distinct:
  "distinct (map index (sorted_reverse key (build_results docs scores)))"
proof -
  have "mset (map index (sorted_reverse key (build_results docs scores))) =
      mset (map index (build_results docs scores))"
    by (simp add: mset_sorted_reverse)
  then show ?thesis
    using build_results_index_distinct [of docs scores] by (metis mset_eq_imp_distinct_iff)
qed

subsection \<open>The small instance, run\<close>

lemma example_scores:
  "fst (no_grad_scores example_inference example_state (make_pairs example_request)) =
     Inr [Num 1, Num 3, Num 2, Num 2]"
  by (simp add: no_grad_scores_def compute_scores_def make_pairs_def example_inference_def
      example_state_def example_request_def Let_def)

lemma example_run:
  "rerank_endpoint example_inference example_state example_request =
     (Inr example_response, example_state)"
  by code_simp

lemma example_no_nan: "\<forall>r\<in>set (results example_response). score r \<noteq> NaN"
  by (simp add: example_response_def)

lemma nan_run:
  "rerank_endpoint example_inference example_state nan_request = (Inr nan_response, example_state)"
  by code_simp

lemma nan_tie_scores:
  "fst (no_grad_scores example_inference example_state (make_pairs nan_tie_request)) =
     Inr [Num 1, Num 1, Num 1, Num 1, NaN, Num 1, Num 2]"
  by (simp add: no_grad_scores_def compute_scores_def make_pairs_def example_inference_def
      example_state_def nan_tie_request_def Let_def)

text \<open>The sort of the seven results, one insertion at a time.\<close>

lemma nan_tie_sorted:
  "sorted_reverse score (build_results (documents nan_tie_request)
     [Num 1, Num 1, Num 1, Num 1, NaN, Num 1, Num (2 :: int)]) = results nan_tie_response"
proof -
  let ?lt = "\<lambda>a b :: int TestRankResult. float_lt (score a) (score b)"
  let ?r0 = "\<lparr>index = 0, document = \<lparr>text = ''a''\<rparr>, score = Num (1 :: int)\<rparr>"
  let ?r1 = "\<lparr>index = 1, document = \<lparr>text = ''b''\<rparr>, score = Num (1 :: int)\<rparr>"
  let ?r2 = "\<lparr>index = 2, document = \<lparr>text = ''c''\<rparr>, score = Num (1 :: int)\<rparr>"
  let ?r3 = "\<lparr>index = 3, document = \<lparr>text = ''d''\<rparr>, score = Num (1 :: int)\<rparr>"
  let ?r4 = "\<lparr>index = 4, document = \<lparr>text = []\<rparr>, score = NaN :: int pyfloat\<rparr>"
  let ?r5 = "\<lparr>index = 5, document = \<lparr>text = ''e''\<rparr>, score = Num (1 :: int)\<rparr>"
  let ?r6 = "\<lparr>index = 6, document = \<lparr>text = ''fg''\<rparr>, score = Num (2 :: int)\<rparr>"
  have built: "build_results (documents nan_tie_request)
      [Num 1, Num 1, Num 1, Num 1, NaN, Num 1, Num 2] = [?r0, ?r1, ?r2, ?r3, ?r4, ?r5, ?r6]"
    by (simp add: build_results_def nan_tie_request_def enumerate_eq_zip upt_rec)
  have first_run: "list_sort ?lt [?r6, ?r5, ?r4, ?r3, ?r2, ?r1, ?r0] =
      binarysort ?lt [?r5, ?r6] [?r4, ?r3, ?r2, ?r1, ?r0]"
    by (simp add: list_sort_def)
  have put4: "insert_at (bisect ?lt ?r4 [?r5, ?r6] 0 (length [?r5, ?r6])) ?r4 [?r5, ?r6] =
      [?r5, ?r6, ?r4]"
    by code_simp
  have put3: "insert_at (bisect ?lt ?r3 [?r5, ?r6, ?r4] 0 (length [?r5, ?r6, ?r4])) ?r3
      [?r5, ?r6, ?r4] = [?r5, ?r3, ?r6, ?r4]"
    by code_simp
  have put2: "insert_at (bisect ?lt ?r2 [?r5, ?r3, ?r6, ?r4] 0 (length [?r5, ?r3, ?r6, ?r4])) ?r2
      [?r5, ?r3, ?r6, ?r4] = [?r5, ?r3, ?r2, ?r6, ?r4]"
    by code_simp
  have put1: "insert_at (bisect ?lt ?r1 [?r5, ?r3, ?r2, ?r6, ?r4] 0
      (length [?r5, ?r3, ?r2, ?r6, ?r4])) ?r1 [?r5, ?r3, ?r2, ?r6, ?r4] =
      [?r5, ?r3, ?r2, ?r6, ?r4, ?r1]"
    by code_simp
  have put0: "insert_at (bisect ?lt ?r0 [?r5, ?r3, ?r2, ?r6, ?r4, ?r1] 0
      (length [?r5, ?r3, ?r2, ?r6, ?r4, ?r1])) ?r0 [?r5, ?r3, ?r2, ?r6, ?r4, ?r1] =
      [?r5, ?r3, ?r2, ?r0, ?r6, ?r4, ?r1]"
    by code_simp
  have "binarysort ?lt [?r5, ?r6] [?r4, ?r3, ?r2, ?r1, ?r0] =
      [?r5, ?r3, ?r2, ?r0, ?r6, ?r4, ?r1]"
    by (simp only: binarysort.simps put4 put3 put2 put1 put0)
  with first_run have "list_sort ?lt [?r6, ?r5, ?r4, ?r3, ?r2, ?r1, ?r0] =
      [?r5, ?r3, ?r2, ?r0, ?r6, ?r4, ?r1]"
    by simp
  with built show ?thesis
    by (simp add: sorted_reverse_def nan_tie_response_def)
qed

lemma nan_tie_run:
  "fst (rerank_endpoint example_inference example_state nan_tie_request) = Inr nan_tie_response"
  using rerank_endpoint_returns [OF nan_tie_scores] by (simp add: nan_tie_sorted)

section \<open>The claims\<close>

text \<open>
  C1, as amended. When no score in the results is NaN, the results list of the response
  is sorted by descending score: each entry's score is greater than or equal to the score
  of the entry that follows it.
\<close>

theorem results_sorted_descending:
  assumes "fst (rerank_endpoint I st request) = Inr response"
    and "\<forall>r\<in>set (results response). score r \<noteq> NaN"
  shows "descending (results response)"
proof -
  from assms(1) obtain scores
    where res: "results response = sorted_reverse score (build_results (documents request) scores)"
    by (rule rerank_endpoint_response)
  with assms(2) have "\<forall>r\<in>set (build_results (documents request) scores). score r \<noteq> NaN"
    by (simp add: set_sorted_reverse)
  then have "sorted_wrt (\<lambda>a b. float_ge (score a) (score b))
      (sorted_reverse score (build_results (documents request) scores))"
    by (rule sorted_reverse_descending)
  with res show ?thesis
    by (simp add: descending_if_sorted_wrt)
qed

theorem results_sorted_descending_witness:
  "fst (rerank_endpoint example_inference example_state example_request) = Inr example_response \<and>
   NaN \<notin> score ` set (results example_response) \<and>
   descending (results example_response)"
proof -
  have run: "fst (rerank_endpoint example_inference example_state example_request) =
      Inr example_response"
    by (simp add: example_run)
  have "NaN \<notin> score ` set (results example_response)"
    by (simp add: example_response_def)
  with results_sorted_descending [OF run example_no_nan] run show ?thesis
    by simp
qed

text \<open>
  C1 as stated, for every request, fails. The scores 3, NaN, 5 come back in that order:
  the first entry's score is not greater than or equal to the second's, and the second's
  is not greater than or equal to the third's.
\<close>

theorem nan_results_not_descending:
  "fst (rerank_endpoint example_inference example_state nan_request) = Inr nan_response \<and>
   \<not> descending (results nan_response)"
  by (simp add: nan_run nan_response_def)

text \<open>
  C2. The response has as many results as the request has documents. The flattened logits
  of a sequence-classification model hold at least one score for each pair of the batch;
  that is the hypothesis on the forward pass. Under it the handler returns a response, and
  the response has one result for each document.
\<close>

theorem result_count_equals_document_count:
  assumes "fst (no_grad_scores I st (make_pairs request)) = Inr scores"
    and "length (documents request) \<le> length scores"
  shows "\<exists>response. fst (rerank_endpoint I st request) = Inr response \<and>
           length (results response) = length (documents request)"
  using assms
  by (simp add: rerank_endpoint_returns length_sorted_reverse length_build_results)

theorem result_count_equals_document_count_witness:
  "length (documents example_request) \<le> length [Num 1, Num 3, Num 2, Num 2 :: int pyfloat] \<and>
   (\<exists>response. fst (rerank_endpoint example_inference example_state example_request) = Inr response \<and>
      length (results response) = length (documents example_request))"
proof -
  have enough:
    "length (documents example_request) \<le> length [Num 1, Num 3, Num 2, Num 2 :: int pyfloat]"
    by (simp add: example_request_def)
  from result_count_equals_document_count [OF example_scores enough] enough show ?thesis
    by blast
qed

text \<open>
  C3. The index of every result is the zero-based position of the result's document in the
  documents list of the request, and no two results share an index.
\<close>

theorem result_index_is_original_position:
  assumes "fst (rerank_endpoint I st request) = Inr response"
    and "r \<in> set (results response)"
  shows "(\<exists>i. i < length (documents request) \<and> index r = int i \<and>
            document r = \<lparr>text = documents request ! i\<rparr>) \<and>
         distinct (map index (results response))"
proof -
  from assms(1) obtain scores
    where res: "results response = sorted_reverse score (build_results (documents request) scores)"
    by (rule rerank_endpoint_response)
  with assms(2) have "r \<in> set (build_results (documents request) scores)"
    by (simp add: set_sorted_reverse)
  then obtain i where "i < length (documents request)"
    and "r = \<lparr>index = int i, document = \<lparr>text = documents request ! i\<rparr>, score = scores ! i\<rparr>"
    by (rule in_build_results)
  then have "\<exists>i. i < length (documents request) \<and> index r = int i \<and>
      document r = \<lparr>text = documents request ! i\<rparr>"
    by auto
  moreover from res have "distinct (map index (results response))"
    by (simp add: sorted_reverse_index_distinct)
  ultimately show ?thesis by simp
qed

theorem result_index_is_original_position_witness:
  "\<lparr>index = 2, document = \<lparr>text = ''bb''\<rparr>, score = Num (2 :: int)\<rparr> \<in>
     set (results example_response) \<and>
   (\<exists>i. i < length (documents example_request) \<and> (2 :: int) = int i \<and>
      \<lparr>text = ''bb''\<rparr> = \<lparr>text = documents example_request ! i\<rparr>) \<and>
   distinct (map index (results example_response))"
proof -
  have run: "fst (rerank_endpoint example_inference example_state example_request) =
      Inr example_response"
    by (simp add: example_run)
  have mem: "\<lparr>index = 2, document = \<lparr>text = ''bb''\<rparr>, score = Num (2 :: int)\<rparr> \<in>
      set (results example_response)"
    by (simp add: example_response_def)
  from result_index_is_original_position [OF run mem] mem show ?thesis by simp
qed

text \<open>
  C4. For every entry of the results list, the index is a position of the documents list
  of the request, and \<open>document.text\<close> is the document at that position.
\<close>

theorem result_text_is_document_at_index:
  assumes "fst (rerank_endpoint I st request) = Inr response"
    and "r \<in> set (results response)"
  shows "0 \<le> index r \<and> nat (index r) < length (documents request) \<and>
         text (document r) = documents request ! nat (index r)"
proof -
  from assms(1) obtain scores
    where "results response = sorted_reverse score (build_results (documents request) scores)"
    by (rule rerank_endpoint_response)
  with assms(2) have "r \<in> set (build_results (documents request) scores)"
    by (simp add: set_sorted_reverse)
  then obtain i where "i < length (documents request)"
    and "r = \<lparr>index = int i, document = \<lparr>text = documents request ! i\<rparr>, score = scores ! i\<rparr>"
    by (rule in_build_results)
  then show ?thesis by simp
qed

theorem result_text_is_document_at_index_witness:
  "\<lparr>index = 3, document = \<lparr>text = ''dd''\<rparr>, score = Num (2 :: int)\<rparr> \<in>
     set (results example_response) \<and>
   nat 3 < length (documents example_request) \<and>
   ''dd'' = documents example_request ! nat 3"
proof -
  have run: "fst (rerank_endpoint example_inference example_state example_request) =
      Inr example_response"
    by (simp add: example_run)
  have mem: "\<lparr>index = 3, document = \<lparr>text = ''dd''\<rparr>, score = Num (2 :: int)\<rparr> \<in>
      set (results example_response)"
    by (simp add: example_response_def)
  from result_text_is_document_at_index [OF run mem] mem show ?thesis by simp
qed

text \<open>
  C5. Scores go to documents by position. When the tokenizer, the transfer to the device
  and the forward pass (run with the gradient mode off) succeed on the pairs of the
  request, the handler returns a response in which
  \<^item> every result carries the score that the forward pass produced at the result's index,
    and the pair of the batch at that index is the query with the document at that index;
  \<^item> for every position \<open>i\<close> that has both a document and a score, there is a result with
    index \<open>i\<close>, and it carries the \<open>i\<close>-th score.
\<close>

theorem scores_assigned_by_position:
  assumes "tokenize I (tokenizer st) (make_pairs request) = Inr enc"
    and "inputs_to I enc (device st) = Inr inputs"
    and "forward_logits I (model st) False inputs = Inr scores"
  shows "\<exists>response. fst (rerank_endpoint I st request) = Inr response \<and>
           (\<forall>r \<in> set (results response).
              0 \<le> index r \<and> nat (index r) < length scores \<and>
              score r = scores ! nat (index r) \<and>
              nat (index r) < length (make_pairs request) \<and>
              make_pairs request ! nat (index r) =
                (query request, documents request ! nat (index r))) \<and>
           (\<forall>i. i < length (documents request) \<and> i < length scores \<longrightarrow>
              (\<exists>r \<in> set (results response). index r = int i \<and> score r = scores ! i))"
proof -
  let ?built = "build_results (documents request) scores"
  from assms have "fst (no_grad_scores I st (make_pairs request)) = Inr scores"
    by (rule forward_pass_scores)
  then have ret: "fst (rerank_endpoint I st request) =
      Inr \<lparr>results = sorted_reverse score ?built\<rparr>"
    by (rule rerank_endpoint_returns)
  have each: "0 \<le> index r \<and> nat (index r) < length scores \<and> score r = scores ! nat (index r) \<and>
        nat (index r) < length (make_pairs request) \<and>
        make_pairs request ! nat (index r) = (query request, documents request ! nat (index r))"
    if "r \<in> set ?built" for r
  proof -
    from that obtain i where "i < length (documents request)" and "i < length scores"
      and "r = \<lparr>index = int i, document = \<lparr>text = documents request ! i\<rparr>, score = scores ! i\<rparr>"
      by (rule in_build_results)
    then show ?thesis by (simp add: make_pairs_def)
  qed
  have every: "\<exists>r \<in> set ?built. index r = int i \<and> score r = scores ! i"
    if "i < length (documents request) \<and> i < length scores" for i
  proof -
    from that have "i < length ?built"
      by (simp add: length_build_results)
    then have "?built ! i \<in> set ?built"
      by (rule nth_mem)
    moreover from that have "index (?built ! i) = int i \<and> score (?built ! i) = scores ! i"
      by (simp add: nth_build_results)
    ultimately show ?thesis by blast
  qed
  from ret each every show ?thesis
    by (simp add: set_sorted_reverse)
qed

theorem scores_assigned_by_position_witness:
  "fst (rerank_endpoint example_inference example_state example_request) = Inr example_response \<and>
   score \<lparr>index = 1, document = \<lparr>text = ''ccc''\<rparr>, score = Num (3 :: int)\<rparr> =
     [Num 1, Num 3, Num 2, Num 2] ! nat 1 \<and>
   make_pairs example_request ! nat 1 = (''q'', ''ccc'') \<and>
   (\<exists>r \<in> set (results example_response). index r = int 0 \<and> score r = Num 1) \<and>
   (\<exists>r \<in> set (results example_response). index r = int 3 \<and> score r = Num 2)"
proof -
  let ?scores = "[Num 1, Num 3, Num 2, Num 2 :: int pyfloat]"
  have tok: "tokenize example_inference (tokenizer example_state) (make_pairs example_request) =
      Inr (make_pairs example_request)"
    by (simp add: example_inference_def make_pairs_def example_request_def)
  have dev: "inputs_to example_inference (make_pairs example_request) (device example_state) =
      Inr (make_pairs example_request)"
    by (simp add: example_inference_def)
  have fwd: "forward_logits example_inference (model example_state) False
      (make_pairs example_request) = Inr ?scores"
    by (simp add: example_inference_def make_pairs_def example_request_def)
  have run: "fst (rerank_endpoint example_inference example_state example_request) =
      Inr example_response"
    by (simp add: example_run)
  from scores_assigned_by_position [OF tok dev fwd] run
  have each: "\<forall>r \<in> set (results example_response).
      score r = ?scores ! nat (index r) \<and>
      make_pairs example_request ! nat (index r) =
        (query example_request, documents example_request ! nat (index r))"
    and every: "\<forall>i. i < length (documents example_request) \<and> i < length ?scores \<longrightarrow>
      (\<exists>r \<in> set (results example_response). index r = int i \<and> score r = ?scores ! i)"
    by auto
  have mem: "\<lparr>index = 1, document = \<lparr>text = ''ccc''\<rparr>, score = Num (3 :: int)\<rparr> \<in>
      set (results example_response)"
    by (simp add: example_response_def)
  from each mem have "score \<lparr>index = 1, document = \<lparr>text = ''ccc''\<rparr>, score = Num (3 :: int)\<rparr> =
      ?scores ! nat 1 \<and> make_pairs example_request ! nat 1 = (''q'', ''ccc'')"
    by (auto simp: example_request_def)
  moreover from every [rule_format, of 0]
  have "\<exists>r \<in> set (results example_response). index r = int 0 \<and> score r = Num 1"
    by (simp add: example_request_def)
  moreover from every [rule_format, of 3]
  have "\<exists>r \<in> set (results example_response). index r = int 3 \<and> score r = Num 2"
    by (simp add: example_request_def)
  ultimately show ?thesis
    using run by blast
qed

text \<open>
  C6, as amended. For a request with no documents the handler hands the empty batch to the
  libraries. If one of the calls raises, the handler raises the same exception and returns
  no results list; if the calls succeed, the results list of the response is empty,
  whatever the forward pass returned.
\<close>

theorem empty_documents_empty_results:
  assumes "documents request = []"
  shows "fst (rerank_endpoint I st request) =
           (case fst (no_grad_scores I st []) of
              Inl e \<Rightarrow> Inl e
            | Inr scores \<Rightarrow> Inr \<lparr>results = []\<rparr>)"
proof (cases "fst (no_grad_scores I st (make_pairs request))")
  case (Inl e)
  from rerank_endpoint_raises [OF this] Inl assms show ?thesis
    by (simp add: make_pairs_def)
next
  case (Inr scores)
  from rerank_endpoint_returns [OF this] Inr assms show ?thesis
    by (simp add: make_pairs_def build_results_def sorted_reverse_def list_sort_def)
qed

text \<open>
  Both ways out: with the stand-in tokenizer, which raises on the empty batch, and with a
  tokenizer that lets it through.
\<close>

theorem empty_documents_empty_results_witness:
  "documents empty_request = [] \<and>
   fst (rerank_endpoint example_inference example_state empty_request) =
     Inl (Exception ''list index out of range'') \<and>
   fst (rerank_endpoint (example_inference\<lparr>tokenize := (\<lambda>tok pairs. Inr pairs)\<rparr>)
          example_state empty_request) =
     Inr \<lparr>results = []\<rparr>"
proof -
  have empty: "documents empty_request = []"
    by (simp add: empty_request_def)
  from empty_documents_empty_results [OF empty, of example_inference example_state]
    empty_documents_empty_results [OF empty,
      of "example_inference\<lparr>tokenize := (\<lambda>tok pairs. Inr pairs)\<rparr>" example_state]
    empty
  show ?thesis
    by (simp add: no_grad_scores_def compute_scores_def example_inference_def Let_def)
qed

text \<open>
  C6 as stated fails: the tokenizer raises on the empty batch, so the handler raises and no
  results list is returned.
\<close>

theorem empty_documents_raise:
  "fst (rerank_endpoint example_inference example_state empty_request) =
     Inl (Exception ''list index out of range'')"
  by (simp add: rerank_endpoint_def no_grad_scores_def compute_scores_def make_pairs_def
      example_inference_def empty_request_def Let_def)

text \<open>
  C7, as amended. When no score in the results is NaN, ties keep their order: of two
  results with equal scores, the one that comes earlier in the results list has the
  smaller index.
\<close>

theorem tie_order_stable:
  assumes "fst (rerank_endpoint I st request) = Inr response"
    and "\<forall>r\<in>set (results response). score r \<noteq> NaN"
    and "i < j" and "j < length (results response)"
    and "float_eq (score (results response ! i)) (score (results response ! j))"
  shows "index (results response ! i) < index (results response ! j)"
proof -
  let ?v = "score (results response ! j)"
  from assms(1) obtain scores
    where res: "results response = sorted_reverse score (build_results (documents request) scores)"
    by (rule rerank_endpoint_response)
  with assms(2) have no_nan: "\<forall>r\<in>set (build_results (documents request) scores). score r \<noteq> NaN"
    by (simp add: set_sorted_reverse)
  have "sorted_wrt (\<lambda>a b. index a < index b)
      (filter (\<lambda>x. score x = ?v) (build_results (documents request) scores))"
    by (rule sorted_wrt_filter) (rule build_results_index_increasing)
  with res have "sorted_wrt (\<lambda>a b. index a < index b)
      (filter (\<lambda>x. score x = ?v) (results response))"
    by (simp add: filter_sorted_reverse [OF no_nan])
  from sorted_wrt_filter_nth [OF this assms(3) assms(4)] assms(5) show ?thesis
    by (simp add: float_eq_iff)
qed

theorem tie_order_stable_witness:
  "NaN \<notin> score ` set (results example_response) \<and>
   (1 :: nat) < 2 \<and> 2 < length (results example_response) \<and>
   float_eq (score (results example_response ! 1)) (score (results example_response ! 2)) \<and>
   index (results example_response ! 1) < index (results example_response ! 2)"
proof -
  have run: "fst (rerank_endpoint example_inference example_state example_request) =
      Inr example_response"
    by (simp add: example_run)
  have lt: "(1 :: nat) < 2"
    by simp
  have len: "2 < length (results example_response)"
    by (simp add: example_response_def)
  have tie: "float_eq (score (results example_response ! 1)) (score (results example_response ! 2))"
    by (simp add: example_response_def)
  have "NaN \<notin> score ` set (results example_response)"
    by (simp add: example_response_def)
  with tie_order_stable [OF run example_no_nan lt len tie] lt len tie
  show ?thesis by simp
qed

text \<open>
  C7 as stated, for every request, fails. With the scores 1, 1, 1, 1, NaN, 1, 2 the result
  with index 1 comes first and the result with index 0 fourth: their scores are equal, and
  the one with the smaller index is the later one.
\<close>

theorem nan_breaks_tie_order:
  "fst (rerank_endpoint example_inference example_state nan_tie_request) = Inr nan_tie_response \<and>
   float_eq (score (results nan_tie_response ! 0)) (score (results nan_tie_response ! 3)) \<and>
   index (results nan_tie_response ! 3) < index (results nan_tie_response ! 0)"
  by (simp add: nan_tie_run nan_tie_response_def)

text \<open>
  C8. If loading the tokenizer raises, or the tokenizer loads and loading the model raises,
  start-up prints the failure message with the text of the exception and the process
  exits: it never serves.
\<close>

theorem load_failure_terminates:
  assumes "tokenizer_from_pretrained L model_path = Inl (Exception msg) \<or>
           (\<not> isl (tokenizer_from_pretrained L model_path) \<and>
            model_from_pretrained L model_path = Inl (Exception msg))"
  shows "startup L =
           Exited [''Loading model, please wait...'',
                   ''Device in use: '' @ device_str (if cuda_is_available L then Cuda else Cpu),
                   ''Model loading failed: '' @ msg] \<and>
         (\<forall>out st. startup L \<noteq> Serving out st)"
  using assms
  by (auto simp: startup_def load_model_def Let_def split: sum.splits)

theorem load_failure_terminates_witness:
  "startup failing_tokenizer_loader =
     Exited [''Loading model, please wait...'', ''Device in use: cpu'',
             ''Model loading failed: no tokenizer''] \<and>
   startup failing_model_loader =
     Exited [''Loading model, please wait...'', ''Device in use: cuda'',
             ''Model loading failed: no weights'']"
proof -
  have tok: "tokenizer_from_pretrained failing_tokenizer_loader model_path =
      Inl (Exception ''no tokenizer'')"
    by (simp add: failing_tokenizer_loader_def)
  have mdl: "\<not> isl (tokenizer_from_pretrained failing_model_loader model_path) \<and>
      model_from_pretrained failing_model_loader model_path = Inl (Exception ''no weights'')"
    by (simp add: failing_model_loader_def)
  from load_failure_terminates [of failing_tokenizer_loader "''no tokenizer''"] tok
    load_failure_terminates [of failing_model_loader "''no weights''"] mdl
  show ?thesis
    by (simp add: failing_tokenizer_loader_def failing_model_loader_def)
qed

section \<open>What is not stated\<close>

text \<open>
  C9 and C10 have no theorem here. Whether a request leaves the model and the tokenizer as
  they were, and whether two equal requests get equal responses, is decided inside the
  objects of torch and transformers that the handler calls, and by how the web framework
  runs the handler for requests that arrive together. The library calls are parameters of
  this development and functions by their type, so both statements would hold of every
  handler that can be written here.
\<close>

end
